theory Spec2Isabelle
  imports Main "HOL-Library.Word"
begin

section \<open>Go values used by \<^verbatim>\<open>lib/server.go\<close>\<close>

text \<open>
  Go strings are byte sequences: \<^typ>\<open>string\<close>, one \<^typ>\<open>char\<close> per byte.  An \<^verbatim>\<open>error\<close>
  value is known only through its \<^verbatim>\<open>Error()\<close> message.  A function either returns a
  value, returns an error, or panics.
\<close>

datatype error = errors_New (Error: string)

datatype 'a result = Ok 'a | Err error | Panic

text \<open>Reading a \<^verbatim>\<open>map[string]string\<close> at a missing key gives the zero value \<^verbatim>\<open>""\<close>.\<close>

definition map_index :: "(string \<rightharpoonup> string) \<Rightarrow> string \<Rightarrow> string" where
  "map_index m k = (case m k of None \<Rightarrow> [] | Some v \<Rightarrow> v)"

text \<open>Indexing a slice out of range panics: \<open>None\<close> here.\<close>

definition slice_index :: "'a list \<Rightarrow> nat \<Rightarrow> 'a option" where
  "slice_index xs i = (if i < length xs then Some (xs ! i) else None)"

subsection \<open>Package \<^verbatim>\<open>strings\<close>\<close>

text \<open>
  Every separator and cutset that \<^verbatim>\<open>server.go\<close> passes is a one-byte string, so the
  separator is a \<^typ>\<open>char\<close> here.  \<open>genSplit s sep k\<close> cuts \<open>s\<close> at the first \<open>k\<close>
  occurrences of \<open>sep\<close>, as the loop of Go's \<^verbatim>\<open>genSplit\<close> does with \<^verbatim>\<open>n = k + 1\<close>.
\<close>

fun genSplit :: "string \<Rightarrow> char \<Rightarrow> nat \<Rightarrow> string list" where
  "genSplit s sep 0 = [s]"
| "genSplit s sep (Suc k) =
     (case dropWhile (\<lambda>c. c \<noteq> sep) s of
        [] \<Rightarrow> [s]
      | _ # rest \<Rightarrow> takeWhile (\<lambda>c. c \<noteq> sep) s # genSplit rest sep k)"

definition strings_Split :: "string \<Rightarrow> char \<Rightarrow> string list" where
  "strings_Split s sep = genSplit s sep (count_list s sep)"

definition strings_SplitN :: "string \<Rightarrow> char \<Rightarrow> int \<Rightarrow> string list" where
  "strings_SplitN s sep n =
     (if n = 0 then []
      else if n < 0 then genSplit s sep (count_list s sep)
      else genSplit s sep (nat n - 1))"

definition strings_Contains :: "string \<Rightarrow> char \<Rightarrow> bool" where
  "strings_Contains s c \<longleftrightarrow> c \<in> set s"

definition strings_TrimRight :: "string \<Rightarrow> char \<Rightarrow> string" where
  "strings_TrimRight s c = rev (dropWhile (\<lambda>x. x = c) (rev s))"

text \<open>
  \<^verbatim>\<open>strings.TrimSpace\<close> removes leading and trailing white space as Unicode defines it.
  On bytes these runes are the six ASCII spaces and the UTF-8 encodings of U+0085,
  U+00A0, U+1680, U+2000 to U+200A, U+2028, U+2029, U+202F, U+205F and U+3000; any
  other byte sequence decodes to a rune that is not a space (an invalid one to U+FFFD).
\<close>

definition asciiSpace :: "char \<Rightarrow> bool" where
  "asciiSpace c \<longleftrightarrow>
     c = CHR 0x09 \<or> c = CHR 0x0A \<or> c = CHR 0x0B \<or> c = CHR 0x0C \<or> c = CHR 0x0D \<or> c = CHR 0x20"

definition unicodeSpaces :: "string list" where
  "unicodeSpaces =
     [[CHR 0xC2, CHR 0x85], [CHR 0xC2, CHR 0xA0], [CHR 0xE1, CHR 0x9A, CHR 0x80],
      [CHR 0xE2, CHR 0x80, CHR 0x80], [CHR 0xE2, CHR 0x80, CHR 0x81],
      [CHR 0xE2, CHR 0x80, CHR 0x82], [CHR 0xE2, CHR 0x80, CHR 0x83],
      [CHR 0xE2, CHR 0x80, CHR 0x84], [CHR 0xE2, CHR 0x80, CHR 0x85],
      [CHR 0xE2, CHR 0x80, CHR 0x86], [CHR 0xE2, CHR 0x80, CHR 0x87],
      [CHR 0xE2, CHR 0x80, CHR 0x88], [CHR 0xE2, CHR 0x80, CHR 0x89],
      [CHR 0xE2, CHR 0x80, CHR 0x8A], [CHR 0xE2, CHR 0x80, CHR 0xA8],
      [CHR 0xE2, CHR 0x80, CHR 0xA9], [CHR 0xE2, CHR 0x80, CHR 0xAF],
      [CHR 0xE2, CHR 0x81, CHR 0x9F], [CHR 0xE3, CHR 0x80, CHR 0x80]]"

text \<open>The width in bytes of the space rune that \<open>s\<close> starts with (ends with); 0 if there is none.\<close>

definition leadingSpace :: "string \<Rightarrow> nat" where
  "leadingSpace s =
     (case s of
        [] \<Rightarrow> 0
      | c # _ \<Rightarrow>
          if asciiSpace c then 1
          else (case find (\<lambda>e. take (length e) s = e) unicodeSpaces of
                  None \<Rightarrow> 0 | Some e \<Rightarrow> length e))"

definition trailingSpace :: "string \<Rightarrow> nat" where
  "trailingSpace s =
     (case rev s of
        [] \<Rightarrow> 0
      | c # _ \<Rightarrow>
          if asciiSpace c then 1
          else (case find (\<lambda>e. take (length e) (rev s) = rev e) unicodeSpaces of
                  None \<Rightarrow> 0 | Some e \<Rightarrow> length e))"

function TrimLeftSpace :: "string \<Rightarrow> string" where
  "TrimLeftSpace s = (if leadingSpace s = 0 then s else TrimLeftSpace (drop (leadingSpace s) s))"
  by pat_completeness auto
termination
  by (relation "measure length") (auto simp: leadingSpace_def split: list.splits)

function TrimRightSpace :: "string \<Rightarrow> string" where
  "TrimRightSpace s =
     (if trailingSpace s = 0 then s else TrimRightSpace (take (length s - trailingSpace s) s))"
  by pat_completeness auto
termination
  by (relation "measure length") (auto simp: trailingSpace_def split: list.splits)

definition strings_TrimSpace :: "string \<Rightarrow> string" where
  "strings_TrimSpace s = TrimRightSpace (TrimLeftSpace s)"

subsection \<open>Package \<^verbatim>\<open>os\<close>\<close>

text \<open>A file system answers \<^verbatim>\<open>os.ReadFile\<close> with the file's bytes or with an error.\<close>

type_synonym filesystem = "string \<Rightarrow> error + string"

definition os_ReadFile :: "filesystem \<Rightarrow> string \<Rightarrow> error + string" where
  "os_ReadFile fs filename = fs filename"

section \<open>\<^verbatim>\<open>readAuthFile\<close>\<close>

text \<open>
  The body of \<^verbatim>\<open>for _, row := range strings.Split(AuthData, "\n")\<close>, run over the rows
  in order with the map built so far.
\<close>

fun readAuthFile_rows :: "string list \<Rightarrow> (string \<rightharpoonup> string) \<Rightarrow> (string \<rightharpoonup> string) result" where
  "readAuthFile_rows [] AuthMap = Ok AuthMap"
| "readAuthFile_rows (row # rows) AuthMap =
     (if strings_Contains row (CHR ''='') then
        (let kvs = strings_SplitN row (CHR ''='') 2 in
         case slice_index kvs 1 of
           None \<Rightarrow> Panic
         | Some v \<Rightarrow>
             if strings_TrimSpace v \<noteq> [] then
               (case slice_index kvs 0 of
                  None \<Rightarrow> Panic
                | Some k \<Rightarrow>
                    readAuthFile_rows rows (AuthMap(strings_TrimSpace k \<mapsto> strings_TrimSpace v)))
             else readAuthFile_rows rows AuthMap)
      else readAuthFile_rows rows AuthMap)"

definition readAuthFile :: "filesystem \<Rightarrow> string \<Rightarrow> (string \<rightharpoonup> string) result" where
  "readAuthFile fs filename =
     (case os_ReadFile fs filename of
        Inl err \<Rightarrow> Err err
      | Inr AuthDataBytes \<Rightarrow>
          (let AuthData = strings_TrimRight AuthDataBytes (CHR 0x0D) in
           readAuthFile_rows (strings_Split AuthData (CHR 0x0A)) Map.empty))"

section \<open>\<^verbatim>\<open>Handler\<close>\<close>

text \<open>
  The request and response types are those of frp's package \<^verbatim>\<open>plugin\<close>.  Of the request
  the handler reads \<^verbatim>\<open>User\<close> and \<^verbatim>\<open>Metas\<close> of the login content, and nothing else.  Of
  the response it assigns \<^verbatim>\<open>Reject\<close>, \<^verbatim>\<open>RejectReason\<close> and \<^verbatim>\<open>Unchange\<close>; the remaining
  field \<^verbatim>\<open>Content\<close> stays \<^verbatim>\<open>nil\<close> on every path and is left out.  Of \<^verbatim>\<open>Map\<close> the handler
  reads \<^verbatim>\<open>Data\<close>, under the read lock, so it sees one whole mapping; \<^verbatim>\<open>RefreshChan\<close>
  belongs to the two background loops further down.
\<close>

record LoginContent =
  User :: string
  Metas :: "string \<rightharpoonup> string"

record Response =
  Reject :: bool
  RejectReason :: string
  Unchange :: bool

record Map =
  Data :: "string \<rightharpoonup> string"

text \<open>
  \<open>Body\<close> is what \<^verbatim>\<open>ioutil.ReadAll(r.Body)\<close> yields.  What the handler does to its
  \<^verbatim>\<open>ResponseWriter\<close> is one \<^verbatim>\<open>WriteHeader\<close> followed by one \<^verbatim>\<open>Write\<close>.
\<close>

record http_Request =
  Body :: "error + string"

record http_ResponseWriter =
  WriteHeader :: nat
  Write :: string

abbreviation http_StatusOK :: nat where
  "http_StatusOK \<equiv> 200"

abbreviation http_StatusBadRequest :: nat where
  "http_StatusBadRequest \<equiv> 400"

abbreviation http_StatusInternalServerError :: nat where
  "http_StatusInternalServerError \<equiv> 500"

definition ioutil_ReadAll :: "error + string \<Rightarrow> error + string" where
  "ioutil_ReadAll body = body"

text \<open>\<^verbatim>\<open>fmt.Sprintf(`{"msg": "%s"}`, err.Error())\<close>\<close>

definition Sprintf_msg :: "error \<Rightarrow> string" where
  \<open>Sprintf_msg err = ''{"msg": "'' @ Error err @ ''"}''\<close>

text \<open>\<^verbatim>\<open>fmt.Sprintf("user: `%s` invalid password", user)\<close>\<close>

definition Sprintf_invalid_password :: "string \<Rightarrow> string" where
  "Sprintf_invalid_password user = ''user: `'' @ user @ ''` invalid password''"

text \<open>
  \<^verbatim>\<open>json.Unmarshal\<close> into the request whose content is the login content, and
  \<^verbatim>\<open>json.Marshal\<close> of the response, are parameters: any decoder and any encoder.
\<close>

definition Handler ::
  "(string \<Rightarrow> error + LoginContent) \<Rightarrow> (Response \<Rightarrow> error + string) \<Rightarrow>
   http_Request \<Rightarrow> Map \<Rightarrow> http_ResponseWriter" where
  "Handler json_Unmarshal json_Marshal r m =
     (case ioutil_ReadAll (Body r) of
        Inl err \<Rightarrow>
          \<lparr>WriteHeader = http_StatusInternalServerError, Write = Sprintf_msg err\<rparr>
      | Inr byteData \<Rightarrow>
          (case json_Unmarshal byteData of
             Inl err \<Rightarrow> \<lparr>WriteHeader = http_StatusBadRequest, Write = Sprintf_msg err\<rparr>
           | Inr pluginLoginContent \<Rightarrow>
               (let pluginResponse = \<lparr>Reject = False, RejectReason = [], Unchange = False\<rparr>;
                    user = User pluginLoginContent;
                    password = map_index (Metas pluginLoginContent) ''password''
                in
                  if user = [] \<or> password = [] then
                    (let pluginResponse = pluginResponse
                           \<lparr>Reject := True,
                            RejectReason := ''user or meta password can not be empty''\<rparr>
                     in case json_Marshal pluginResponse of
                          Inl err \<Rightarrow>
                            \<lparr>WriteHeader = http_StatusInternalServerError, Write = Sprintf_msg err\<rparr>
                        | Inr resp \<Rightarrow> \<lparr>WriteHeader = http_StatusOK, Write = resp\<rparr>)
                  else
                    (let check = (map_index (Data m) user = password);
                         pluginResponse =
                           (if check then pluginResponse\<lparr>Unchange := True\<rparr>
                            else pluginResponse
                              \<lparr>Reject := True, RejectReason := Sprintf_invalid_password user\<rparr>)
                     in case json_Marshal pluginResponse of
                          Inl err \<Rightarrow>
                            \<lparr>WriteHeader = http_StatusInternalServerError, Write = Sprintf_msg err\<rparr>
                        | Inr resp \<Rightarrow> \<lparr>WriteHeader = http_StatusOK, Write = resp\<rparr>))))"

section \<open>The reload loop of \<^verbatim>\<open>NewServer\<close>\<close>

record Config =
  BindAddress :: string
  AuthFile :: string
  Inotify :: bool

text \<open>
  The second goroutine of \<^verbatim>\<open>NewServer\<close> loops over a \<^verbatim>\<open>select\<close>.  Each element of
  the list is the case one \<^verbatim>\<open>select\<close> takes: the context is done, or a signal is received
  from \<^verbatim>\<open>m.RefreshChan\<close>, with the file system as \<^verbatim>\<open>readAuthFile\<close> then finds it.  The
  state is \<^verbatim>\<open>m\<close> and the lines printed on \<^verbatim>\<open>logger\<close>.  With the list used up the
  goroutine is blocked in \<^verbatim>\<open>select\<close>; a panic would crash it.
\<close>

datatype reload_select = ctx_Done | RefreshChan_recv filesystem

datatype goroutine = Blocked | Exited | Crashed

fun NewServer_reload ::
  "Config \<Rightarrow> reload_select list \<Rightarrow> Map \<times> string list \<Rightarrow> (Map \<times> string list) \<times> goroutine" where
  "NewServer_reload cfg [] (m, logger) = ((m, logger), Blocked)"
| "NewServer_reload cfg (ctx_Done # rest) (m, logger) = ((m, logger), Exited)"
| "NewServer_reload cfg (RefreshChan_recv fs # rest) (m, logger) =
     (case readAuthFile fs (AuthFile cfg) of
        Err err \<Rightarrow>
          NewServer_reload cfg rest
            (m, logger @ [''read auth file error: '' @ Error err @ [CHR 0x0A]])
      | Ok AuthMap \<Rightarrow> NewServer_reload cfg rest (m\<lparr>Data := AuthMap\<rparr>, logger)
      | Panic \<Rightarrow> ((m, logger), Crashed))"

section \<open>\<^verbatim>\<open>inotifyAuthFile\<close>\<close>

text \<open>
  Package \<^verbatim>\<open>fsnotify\<close> declares \<^verbatim>\<open>Op\<close> as a \<^verbatim>\<open>uint32\<close> bit mask, with one bit for
  each class of event: \<^verbatim>\<open>Create Op = 1 << iota\<close>, then \<^verbatim>\<open>Write\<close>, \<^verbatim>\<open>Remove\<close>, \<^verbatim>\<open>Rename\<close>
  and \<^verbatim>\<open>Chmod\<close>.
\<close>

unbundle bit_operations_syntax

type_synonym Op = "32 word"

definition fsnotify_Create :: Op where "fsnotify_Create = 1"
definition fsnotify_Write :: Op where "fsnotify_Write = 2"
definition fsnotify_Remove :: Op where "fsnotify_Remove = 4"
definition fsnotify_Rename :: Op where "fsnotify_Rename = 8"
definition fsnotify_Chmod :: Op where "fsnotify_Chmod = 16"

text \<open>
  The watcher goroutine is either in its \<^verbatim>\<open>select\<close>, or at the send on the refresh
  channel, or it has returned.  Its state also holds the number of signals queued in
  the channel, what became of the \<^verbatim>\<open>fsnotify\<close> watcher, and the lines logged.
\<close>

datatype location = at_select | at_send | returned "error option"

datatype fswatcher = NotCreated | Watching | Closed

record inotify =
  at :: location
  refreshChan :: nat
  w :: fswatcher
  logger :: "string list"

text \<open>
  The function up to its loop: \<^verbatim>\<open>NewWatcher\<close> and \<^verbatim>\<open>w.Add\<close> may fail, and the deferred
  \<^verbatim>\<open>w.Close()\<close> runs at every return after the watcher exists.
\<close>

definition inotifyAuthFile :: "error option \<Rightarrow> error option \<Rightarrow> nat \<Rightarrow> string list \<Rightarrow> inotify" where
  "inotifyAuthFile NewWatcher_err Add_err chan lg =
     (case NewWatcher_err of
        Some err \<Rightarrow> \<lparr>at = returned (Some err), refreshChan = chan, w = NotCreated, logger = lg\<rparr>
      | None \<Rightarrow>
          (case Add_err of
             Some err \<Rightarrow> \<lparr>at = returned (Some err), refreshChan = chan, w = Closed, logger = lg\<rparr>
           | None \<Rightarrow> \<lparr>at = at_select, refreshChan = chan, w = Watching, logger = lg\<rparr>))"

text \<open>
  One step of the loop, or of the receiver of the channel.  \<open>select_Done\<close>: the
  \<^verbatim>\<open>select\<close> takes \<^verbatim>\<open><-(*ctx).Done()\<close>.  \<open>select_Event op\<close>: it takes an event with this
  \<^verbatim>\<open>Op\<close> from \<^verbatim>\<open>w.Events\<close>.  \<open>send\<close>: the send on the channel completes, which needs
  room in its buffer of \<open>cap\<close> signals.  \<open>recv\<close>: the reload loop takes one signal out.
  \<open>None\<close>: the step cannot happen in this state.
\<close>

datatype action = select_Done | select_Event Op | send | recv

fun inotifyAuthFile_step :: "nat \<Rightarrow> inotify \<Rightarrow> action \<Rightarrow> inotify option" where
  "inotifyAuthFile_step cap s select_Done =
     (if at s = at_select then Some (s\<lparr>at := returned None, w := Closed\<rparr>) else None)"
| "inotifyAuthFile_step cap s (select_Event op) =
     (if at s = at_select then
        (if op = fsnotify_Write then
           Some (s\<lparr>logger := logger s @ [''auth file changed, read again...''], at := at_send\<rparr>)
         else Some s)
      else None)"
| "inotifyAuthFile_step cap s send =
     (if at s = at_send \<and> refreshChan s < cap then
        Some (s\<lparr>refreshChan := refreshChan s + 1, at := at_select\<rparr>)
      else None)"
| "inotifyAuthFile_step cap s recv =
     (if 0 < refreshChan s then Some (s\<lparr>refreshChan := refreshChan s - 1\<rparr>) else None)"

fun inotifyAuthFile_run :: "nat \<Rightarrow> inotify \<Rightarrow> action list \<Rightarrow> inotify option" where
  "inotifyAuthFile_run cap s [] = Some s"
| "inotifyAuthFile_run cap s (a # as) =
     (case inotifyAuthFile_step cap s a of
        None \<Rightarrow> None
      | Some s' \<Rightarrow> inotifyAuthFile_run cap s' as)"

section \<open>The properties specified\<close>

subsection \<open>Loading, as the specification words it\<close>

text \<open>
  The lines of the content: trailing carriage returns are stripped from the whole buffer,
  which is then cut at every newline.
\<close>

fun lines_of :: "string \<Rightarrow> string list" where
  "lines_of [] = [[]]"
| "lines_of (c # cs) =
     (if c = CHR 0x0A then [] # lines_of cs
      else (case lines_of cs of [] \<Rightarrow> [[c]] | line # rest \<Rightarrow> (c # line) # rest))"

definition Load_lines :: "string \<Rightarrow> string list" where
  "Load_lines content = lines_of (rev (dropWhile (\<lambda>c. c = CHR 0x0D) (rev content)))"

text \<open>
  A line is an entry only if it contains \<^verbatim>\<open>=\<close>; key and value are what precedes and what
  follows the first \<^verbatim>\<open>=\<close>, both trimmed; an entry whose trimmed value is empty is skipped.
\<close>

definition Load_entry :: "string \<Rightarrow> (string \<times> string) option" where
  "Load_entry line =
     (if CHR ''='' \<in> set line then
        (let key = takeWhile (\<lambda>c. c \<noteq> CHR ''='') line;
             val = drop (Suc (length key)) line
         in if strings_TrimSpace val = [] then None
            else Some (strings_TrimSpace key, strings_TrimSpace val))
      else None)"

definition Load_entries :: "string \<Rightarrow> (string \<times> string) list" where
  "Load_entries content = List.map_filter Load_entry (Load_lines content)"

text \<open>The mapping of the entries, where the last entry of a key wins.\<close>

definition Load :: "string \<Rightarrow> (string \<rightharpoonup> string)" where
  "Load content = map_of (rev (Load_entries content))"

definition last_entry :: "(string \<times> string) list \<Rightarrow> string \<Rightarrow> string \<Rightarrow> bool" where
  "last_entry es k v \<longleftrightarrow>
     (\<exists>i \<in> {..<length es}. es ! i = (k, v) \<and> (\<forall>j \<in> {..<length es}. i < j \<longrightarrow> fst (es ! j) \<noteq> k))"

text \<open>The same content with every line ending \<^verbatim>\<open>\n\<close> written as \<^verbatim>\<open>\r\n\<close>.\<close>

definition toCRLF :: "string \<Rightarrow> string" where
  "toCRLF content = concat (map (\<lambda>c. if c = CHR 0x0A then [CHR 0x0D, CHR 0x0A] else [c]) content)"

subsection \<open>Decisions\<close>

text \<open>
  What reaches the client once the handler has decided on a response: status 200 and the
  encoder's bytes, or status 500 and the encoder's error.
\<close>

definition write_decision :: "(Response \<Rightarrow> error + string) \<Rightarrow> Response \<Rightarrow> http_ResponseWriter" where
  "write_decision json_Marshal pluginResponse =
     (case json_Marshal pluginResponse of
        Inl err \<Rightarrow> \<lparr>WriteHeader = 500, Write = Sprintf_msg err\<rparr>
      | Inr resp \<Rightarrow> \<lparr>WriteHeader = 200, Write = resp\<rparr>)"

definition Unchanged :: Response where
  "Unchanged = \<lparr>Reject = False, RejectReason = [], Unchange = True\<rparr>"

definition Rejected :: "string \<Rightarrow> Response" where
  "Rejected reason = \<lparr>Reject = True, RejectReason = reason, Unchange = False\<rparr>"

subsection \<open>JSON texts\<close>

text \<open>
  The specification calls the body of an error response a JSON body.  What a JSON text
  is, by the grammar of RFC 8259: a recogniser that returns the input left over after
  what it recognised, or \<open>None\<close>.
\<close>

text \<open>White space, digits and hexadecimal digits.\<close>

definition json_ws :: "char \<Rightarrow> bool" where
  "json_ws c \<longleftrightarrow> c = CHR 0x20 \<or> c = CHR 0x09 \<or> c = CHR 0x0A \<or> c = CHR 0x0D"

definition json_digit :: "char \<Rightarrow> bool" where
  "json_digit c \<longleftrightarrow> c \<in> set ''0123456789''"

definition json_hex :: "char \<Rightarrow> bool" where
  "json_hex c \<longleftrightarrow> c \<in> set ''0123456789abcdefABCDEF''"

text \<open>
  The characters of a string after its opening quotation mark, up to and with the closing
  one; the result is what follows the string.  A quotation mark or a backslash inside the
  string must be escaped, and a control character may not occur.
\<close>

fun json_chars :: "string \<Rightarrow> string option" where
  "json_chars [] = None"
| "json_chars (c # cs) =
     (if c = CHR 0x22 then Some cs
      else if c = CHR 0x5C then
        (case cs of
           [] \<Rightarrow> None
         | e # cs' \<Rightarrow>
             if e \<in> set [CHR 0x22, CHR 0x5C, CHR ''/'', CHR ''b'', CHR ''f'', CHR ''n'', CHR ''r'', CHR ''t'']
             then json_chars cs'
             else if e = CHR ''u'' then
               (case cs' of
                  h1 # h2 # h3 # h4 # cs'' \<Rightarrow>
                    if json_hex h1 \<and> json_hex h2 \<and> json_hex h3 \<and> json_hex h4
                    then json_chars cs'' else None
                | _ \<Rightarrow> None)
             else None)
      else if (of_char c :: nat) < 0x20 then None
      else json_chars cs)"

text \<open>A number: an optional minus, an integer part, an optional fraction and exponent.\<close>

definition json_digits :: "string \<Rightarrow> string option" where
  "json_digits s =
     (case s of [] \<Rightarrow> None | d # r \<Rightarrow> if json_digit d then Some (dropWhile json_digit r) else None)"

definition json_frac_exp :: "string \<Rightarrow> string option" where
  "json_frac_exp r =
     (case (if take 1 r = ''.'' then json_digits (drop 1 r) else Some r) of
        None \<Rightarrow> None
      | Some r1 \<Rightarrow>
          if take 1 r1 = ''e'' \<or> take 1 r1 = ''E'' then
            json_digits
              (if take 1 (drop 1 r1) = ''+'' \<or> take 1 (drop 1 r1) = ''-'' then drop 2 r1
               else drop 1 r1)
          else Some r1)"

definition json_number :: "string \<Rightarrow> string option" where
  "json_number s =
     (case (if take 1 s = ''-'' then drop 1 s else s) of
        [] \<Rightarrow> None
      | d # r \<Rightarrow>
          if d = CHR ''0'' then json_frac_exp r
          else if json_digit d then json_frac_exp (dropWhile json_digit r)
          else None)"

text \<open>
  A value, the elements of an array after its first bracket, and the members of an object
  after its first brace.  The first argument bounds the number of nested calls.
\<close>

fun json_value :: "nat \<Rightarrow> string \<Rightarrow> string option"
  and json_elements :: "nat \<Rightarrow> string \<Rightarrow> string option"
  and json_members :: "nat \<Rightarrow> string \<Rightarrow> string option" where
  "json_value 0 s = None"
| "json_value (Suc n) s =
     (case s of
        [] \<Rightarrow> None
      | c # cs \<Rightarrow>
          if c = CHR 0x22 then json_chars cs
          else if c = CHR ''['' then
            (case dropWhile json_ws cs of
               [] \<Rightarrow> None
             | d # ds \<Rightarrow> if d = CHR '']'' then Some ds else json_elements n (d # ds))
          else if c = CHR ''{'' then
            (case dropWhile json_ws cs of
               [] \<Rightarrow> None
             | d # ds \<Rightarrow> if d = CHR ''}'' then Some ds else json_members n (d # ds))
          else if take 4 s = ''true'' then Some (drop 4 s)
          else if take 5 s = ''false'' then Some (drop 5 s)
          else if take 4 s = ''null'' then Some (drop 4 s)
          else json_number s)"
| "json_elements 0 s = None"
| "json_elements (Suc n) s =
     (case json_value n s of
        None \<Rightarrow> None
      | Some r \<Rightarrow>
          (case dropWhile json_ws r of
             [] \<Rightarrow> None
           | d # ds \<Rightarrow>
               if d = CHR '']'' then Some ds
               else if d = CHR '','' then json_elements n (dropWhile json_ws ds)
               else None))"
| "json_members 0 s = None"
| "json_members (Suc n) s =
     (case s of
        [] \<Rightarrow> None
      | q # cs \<Rightarrow>
          if q = CHR 0x22 then
            (case json_chars cs of
               None \<Rightarrow> None
             | Some r \<Rightarrow>
                 (case dropWhile json_ws r of
                    [] \<Rightarrow> None
                  | colon # r1 \<Rightarrow>
                      if colon = CHR '':'' then
                        (case json_value n (dropWhile json_ws r1) of
                           None \<Rightarrow> None
                         | Some r2 \<Rightarrow>
                             (case dropWhile json_ws r2 of
                                [] \<Rightarrow> None
                              | d # ds \<Rightarrow>
                                  if d = CHR ''}'' then Some ds
                                  else if d = CHR '','' then json_members n (dropWhile json_ws ds)
                                  else None))
                      else None))
          else None)"

text \<open>A JSON text is one value with white space around it.\<close>

definition JSON_text :: "string \<Rightarrow> bool" where
  "JSON_text s \<longleftrightarrow>
     (\<exists>n r. json_value n (dropWhile json_ws s) = Some r \<and> dropWhile json_ws r = [])"

declare TrimLeftSpace.simps [simp del] TrimRightSpace.simps [simp del]

section \<open>Verification\<close>

lemma dropWhile_sep_Nil: "sep \<notin> set s \<Longrightarrow> dropWhile (\<lambda>c. c \<noteq> sep) s = []"
  by (induction s) auto

lemma dropWhile_sep_Cons:
  "sep \<in> set s \<Longrightarrow> \<exists>rest. dropWhile (\<lambda>c. c \<noteq> sep) s = sep # rest"
  by (induction s) auto

lemma genSplit_Suc:
  "genSplit s sep (Suc k) =
     (if sep \<in> set s
      then takeWhile (\<lambda>c. c \<noteq> sep) s # genSplit (tl (dropWhile (\<lambda>c. c \<noteq> sep) s)) sep k
      else [s])"
proof (cases "sep \<in> set s")
  case True
  from dropWhile_sep_Cons [OF True]
  obtain rest where d: "dropWhile (\<lambda>c. c \<noteq> sep) s = sep # rest" ..
  show ?thesis
    apply (subst genSplit.simps(2))
    apply (simp only: d True if_True list.case list.sel)
    done
next
  case False
  then have d: "dropWhile (\<lambda>c. c \<noteq> sep) s = []"
    by (rule dropWhile_sep_Nil)
  show ?thesis
    apply (subst genSplit.simps(2))
    apply (simp only: d False if_False list.case)
    done
qed
lemma genSplit_not_Nil: "genSplit s sep k \<noteq> []"
  by (cases k) (simp_all only: genSplit_Suc genSplit.simps(1), simp_all)

lemma genSplit_Cons_other:
  "c \<noteq> sep \<Longrightarrow> genSplit (c # cs) sep k = (c # hd (genSplit cs sep k)) # tl (genSplit cs sep k)"
  by (cases k) (simp_all only: genSplit_Suc genSplit.simps(1), simp_all)

lemma strings_Split_Nil: "strings_Split [] sep = [[]]"
  by (simp add: strings_Split_def)

lemma strings_Split_Cons:
  "strings_Split (c # cs) sep =
     (if c = sep then [] # strings_Split cs sep
      else (c # hd (strings_Split cs sep)) # tl (strings_Split cs sep))"
  by (simp add: strings_Split_def genSplit_Cons_other)

lemma strings_Split_not_Nil: "strings_Split s sep \<noteq> []"
  by (simp add: strings_Split_def genSplit_not_Nil)

lemma strings_Split_snoc:
  "strings_Split (s @ [x]) sep =
     (if x = sep then strings_Split s sep @ [[]]
      else butlast (strings_Split s sep) @ [last (strings_Split s sep) @ [x]])"
proof (induction s)
  case Nil
  show ?case by (simp add: strings_Split_Nil strings_Split_Cons)
next
  case (Cons c cs)
  then show ?case
    using strings_Split_not_Nil [of cs sep]
    by (cases "strings_Split cs sep") (auto simp: strings_Split_Cons)
qed

lemma strings_SplitN_2:
  "strings_SplitN row sep 2 =
     (if sep \<in> set row
      then [takeWhile (\<lambda>c. c \<noteq> sep) row, tl (dropWhile (\<lambda>c. c \<noteq> sep) row)]
      else [row])"
proof -
  have "nat 2 - 1 = Suc 0" by simp
  then show ?thesis
    unfolding strings_SplitN_def by (simp only: genSplit_Suc genSplit.simps(1)) simp
qed

lemma unicodeSpaces_no_CR: "e \<in> set unicodeSpaces \<Longrightarrow> CHR 0x0D \<notin> set e"
  by (auto simp: unicodeSpaces_def)

lemma take_eq_length: "take (length e) s = e \<Longrightarrow> length e \<le> length s"
  by (drule arg_cong [where f = length]) simp

lemma take_snoc_eq:
  assumes "x \<notin> set e"
  shows "take (length e) (s @ [x]) = e \<longleftrightarrow> take (length e) s = e"
proof (cases "length e \<le> length s")
  case True
  then show ?thesis by simp
next
  case False
  then have "take (length e) (s @ [x]) = s @ [x]" by simp
  moreover have "s @ [x] \<noteq> e" using assms by auto
  moreover have "take (length e) s \<noteq> e" using False take_eq_length
    by blast
  ultimately show ?thesis by simp
qed

lemma find_unicodeSpaces_snoc:
  "find (\<lambda>e. take (length e) (s @ [CHR 0x0D]) = e) unicodeSpaces =
   find (\<lambda>e. take (length e) s = e) unicodeSpaces"
proof (rule find_cong)
  show "unicodeSpaces = unicodeSpaces" ..
next
  fix e
  assume "e \<in> set unicodeSpaces"
  then show "(take (length e) (s @ [CHR 0x0D]) = e) = (take (length e) s = e)"
    by (rule take_snoc_eq [OF unicodeSpaces_no_CR])
qed

lemma leadingSpace_Nil: "leadingSpace [] = 0"
  by (simp add: leadingSpace_def)

lemma leadingSpace_le: "leadingSpace s \<le> length s"
proof (cases s)
  case Nil
  then show ?thesis by (simp add: leadingSpace_def)
next
  case (Cons c cs)
  show ?thesis
  proof (cases "find (\<lambda>e. take (length e) s = e) unicodeSpaces")
    case None
    then show ?thesis using Cons by (simp add: leadingSpace_def)
  next
    case (Some e)
    then have "take (length e) s = e" by (auto simp: find_Some_iff)
    then have "length e \<le> length s" by (rule take_eq_length)
    then show ?thesis using Cons Some by (simp add: leadingSpace_def)
  qed
qed

lemma leadingSpace_snoc_CR: "s \<noteq> [] \<Longrightarrow> leadingSpace (s @ [CHR 0x0D]) = leadingSpace s"
  using find_unicodeSpaces_snoc [of s]
  by (cases s) (simp_all add: leadingSpace_def)

lemma leadingSpace_CR: "leadingSpace [CHR 0x0D] = 1"
  by (simp add: leadingSpace_def asciiSpace_def)

lemma trailingSpace_snoc_CR: "trailingSpace (s @ [CHR 0x0D]) = 1"
  by (simp add: trailingSpace_def asciiSpace_def)

lemma TrimLeftSpace_Nil: "TrimLeftSpace [] = []"
  by (simp add: TrimLeftSpace.simps leadingSpace_Nil)

lemma TrimRightSpace_Nil: "TrimRightSpace [] = []"
  by (simp add: TrimRightSpace.simps trailingSpace_def)

lemma TrimLeftSpace_snoc_CR:
  "TrimLeftSpace (s @ [CHR 0x0D]) = (if TrimLeftSpace s = [] then [] else TrimLeftSpace s @ [CHR 0x0D])"
proof (induction s rule: TrimLeftSpace.induct)
  case (1 s)
  show ?case
  proof (cases "s = []")
    case True
    have "TrimLeftSpace [CHR 0x0D] = []"
      by (subst TrimLeftSpace.simps) (simp add: leadingSpace_CR TrimLeftSpace_Nil)
    with True show ?thesis by (simp add: TrimLeftSpace_Nil)
  next
    case False
    note w = leadingSpace_snoc_CR [OF False]
    show ?thesis
    proof (cases "leadingSpace s = 0")
      case True
      have "TrimLeftSpace s = s" by (subst TrimLeftSpace.simps) (simp add: True)
      moreover have "TrimLeftSpace (s @ [CHR 0x0D]) = s @ [CHR 0x0D]"
        by (subst TrimLeftSpace.simps) (simp add: True w)
      ultimately show ?thesis using False by simp
    next
      case nz: False
      have d: "drop (leadingSpace s) (s @ [CHR 0x0D]) = drop (leadingSpace s) s @ [CHR 0x0D]"
        using leadingSpace_le [of s] by simp
      have l: "TrimLeftSpace s = TrimLeftSpace (drop (leadingSpace s) s)"
        by (subst TrimLeftSpace.simps) (simp add: nz)
      have r: "TrimLeftSpace (s @ [CHR 0x0D]) = TrimLeftSpace (drop (leadingSpace s) s @ [CHR 0x0D])"
        by (subst TrimLeftSpace.simps) (simp only: nz w d if_False)
      show ?thesis using "1.IH" [OF nz] by (simp only: l r)
    qed
  qed
qed

lemma TrimRightSpace_snoc_CR: "TrimRightSpace (s @ [CHR 0x0D]) = TrimRightSpace s"
  by (subst TrimRightSpace.simps) (simp add: trailingSpace_snoc_CR)

lemma strings_TrimSpace_snoc_CR: "strings_TrimSpace (s @ [CHR 0x0D]) = strings_TrimSpace s"
  by (simp add: strings_TrimSpace_def TrimLeftSpace_snoc_CR TrimRightSpace_snoc_CR TrimRightSpace_Nil)

subsection \<open>The loop over the rows\<close>

lemma tl_dropWhile_drop: "tl (dropWhile P xs) = drop (Suc (length (takeWhile P xs))) xs"
  by (induction xs) auto

lemma readAuthFile_rows_Cons:
  "readAuthFile_rows (row # rows) AuthMap =
     (case Load_entry row of
        None \<Rightarrow> readAuthFile_rows rows AuthMap
      | Some (k, v) \<Rightarrow> readAuthFile_rows rows (AuthMap(k \<mapsto> v)))"
  by (simp add: strings_Contains_def strings_SplitN_2 slice_index_def Load_entry_def
      tl_dropWhile_drop Let_def)

lemma map_filter_Cons:
  "List.map_filter f (x # xs) = (case f x of None \<Rightarrow> List.map_filter f xs | Some y \<Rightarrow> y # List.map_filter f xs)"
  by (simp add: List.map_filter_def split: option.splits)

lemma readAuthFile_rows_eq:
  "readAuthFile_rows rows AuthMap = Ok (AuthMap ++ map_of (rev (List.map_filter Load_entry rows)))"
proof (induction rows arbitrary: AuthMap)
  case Nil
  show ?case by (simp add: List.map_filter_def)
next
  case (Cons row rows)
  show ?case
  proof (cases "Load_entry row")
    case None
    then show ?thesis
      by (simp only: readAuthFile_rows_Cons map_filter_Cons option.case Cons.IH)
  next
    case (Some kv)
    obtain k v where kv: "kv = (k, v)" by (cases kv)
    have "AuthMap(k \<mapsto> v) ++ map_of (rev (List.map_filter Load_entry rows)) =
          AuthMap ++ map_of (rev ((k, v) # List.map_filter Load_entry rows))"
      by (simp add: map_add_upd_left fun_eq_iff map_add_def split: option.splits)
    then show ?thesis
      by (simp only: readAuthFile_rows_Cons map_filter_Cons Some kv option.case prod.case Cons.IH)
  qed
qed

lemma lines_of_eq: "lines_of s = strings_Split s (CHR 0x0A)"
proof (induction s)
  case Nil
  show ?case by (simp add: strings_Split_Nil)
next
  case (Cons c cs)
  then show ?case
    using strings_Split_not_Nil [of cs "CHR 0x0A"]
    by (cases "strings_Split cs (CHR 0x0A)") (simp_all add: strings_Split_Cons)
qed

lemma readAuthFile_Inr:
  "os_ReadFile fs filename = Inr content \<Longrightarrow> readAuthFile fs filename = Ok (Load content)"
  by (simp add: readAuthFile_def readAuthFile_rows_eq Load_def Load_entries_def Load_lines_def
      lines_of_eq strings_TrimRight_def)

lemma readAuthFile_Inl:
  "os_ReadFile fs filename = Inl err \<Longrightarrow> readAuthFile fs filename = Err err"
  by (simp add: readAuthFile_def)

lemma Load_entry_value: "Load_entry line = Some (k, v) \<Longrightarrow> v \<noteq> []"
  by (auto simp: Load_entry_def Let_def split: if_splits)

lemma Load_nonempty: "Load content k \<noteq> Some []"
proof
  assume "Load content k = Some []"
  then have "(k, []) \<in> set (Load_entries content)"
    unfolding Load_def by (auto dest: map_of_SomeD)
  then obtain line where "Load_entry line = Some (k, [])"
    by (auto simp: Load_entries_def List.map_filter_def split: option.splits)
  then show False by (auto dest: Load_entry_value)
qed

subsection \<open>Carriage returns before newlines\<close>

lemma strings_TrimRight_snoc:
  "strings_TrimRight (s @ [x]) c = (if x = c then strings_TrimRight s c else s @ [x])"
  by (simp add: strings_TrimRight_def)

lemma strings_Split_TrimRight:
  "strings_Split (strings_TrimRight s (CHR 0x0D)) (CHR 0x0A) =
   butlast (strings_Split s (CHR 0x0A)) @ [strings_TrimRight (last (strings_Split s (CHR 0x0A))) (CHR 0x0D)]"
proof (induction s rule: rev_induct)
  case Nil
  show ?case by (simp add: strings_Split_Nil strings_TrimRight_def)
next
  case (snoc x s)
  show ?case
  proof (cases "x = CHR 0x0D")
    case True
    then show ?thesis
      using snoc.IH by (simp add: strings_TrimRight_snoc strings_Split_snoc)
  next
    case False
    then show ?thesis
      using strings_Split_not_Nil [of s "CHR 0x0A"]
      by (simp add: strings_TrimRight_snoc strings_Split_snoc strings_TrimRight_def)
  qed
qed

lemma strings_Split_snoc_sep: "strings_Split (s @ [sep]) sep = strings_Split s sep @ [[]]"
  by (simp add: strings_Split_snoc)

lemma strings_Split_snoc_other:
  "x \<noteq> sep \<Longrightarrow>
   strings_Split (s @ [x]) sep = butlast (strings_Split s sep) @ [last (strings_Split s sep) @ [x]]"
  by (simp add: strings_Split_snoc)

lemma toCRLF_snoc:
  "toCRLF (s @ [x]) = toCRLF s @ (if x = CHR 0x0A then [CHR 0x0D, CHR 0x0A] else [x])"
  by (simp add: toCRLF_def)

lemma strings_Split_toCRLF:
  "strings_Split (toCRLF s) (CHR 0x0A) =
   map (\<lambda>l. l @ [CHR 0x0D]) (butlast (strings_Split s (CHR 0x0A))) @ [last (strings_Split s (CHR 0x0A))]"
proof (induction s rule: rev_induct)
  case Nil
  show ?case by (simp add: toCRLF_def strings_Split_Nil)
next
  case (snoc x s)
  let ?ls = "strings_Split s (CHR 0x0A)"
  have ne: "?ls \<noteq> []" by (rule strings_Split_not_Nil)
  show ?case
  proof (cases "x = CHR 0x0A")
    case True
    have "strings_Split (toCRLF (s @ [x])) (CHR 0x0A) =
        strings_Split ((toCRLF s @ [CHR 0x0D]) @ [CHR 0x0A]) (CHR 0x0A)"
      using True by (simp add: toCRLF_snoc)
    also have "\<dots> = strings_Split (toCRLF s @ [CHR 0x0D]) (CHR 0x0A) @ [[]]"
      by (rule strings_Split_snoc_sep)
    also have "strings_Split (toCRLF s @ [CHR 0x0D]) (CHR 0x0A) =
        butlast (strings_Split (toCRLF s) (CHR 0x0A)) @
        [last (strings_Split (toCRLF s) (CHR 0x0A)) @ [CHR 0x0D]]"
      by (rule strings_Split_snoc_other) simp
    also have "\<dots> = map (\<lambda>l. l @ [CHR 0x0D]) (butlast ?ls) @ [last ?ls @ [CHR 0x0D]]"
      using snoc.IH by simp
    also have "map (\<lambda>l. l @ [CHR 0x0D]) (butlast ?ls) @ [last ?ls @ [CHR 0x0D]] =
        map (\<lambda>l. l @ [CHR 0x0D]) (butlast ?ls @ [last ?ls])"
      by simp
    also have "butlast ?ls @ [last ?ls] = ?ls" using ne by simp
    finally show ?thesis using True by (simp add: strings_Split_snoc)
  next
    case False
    then show ?thesis
      using snoc.IH ne by (simp add: toCRLF_snoc strings_Split_snoc butlast_append)
  qed
qed

lemma length_takeWhile_less: "x \<in> set l \<Longrightarrow> \<not> P x \<Longrightarrow> length (takeWhile P l) < length l"
  by (induction l) auto

lemma Load_entry_snoc_CR: "Load_entry (l @ [CHR 0x0D]) = Load_entry l"
proof (cases "CHR ''='' \<in> set l")
  case True
  let ?P = "\<lambda>c. c \<noteq> CHR ''=''"
  have k: "takeWhile ?P (l @ [CHR 0x0D]) = takeWhile ?P l"
    using True by (simp add: takeWhile_append1)
  have "length (takeWhile ?P l) < length l"
    using True by (rule length_takeWhile_less) simp
  then have v: "drop (Suc (length (takeWhile ?P l))) (l @ [CHR 0x0D]) =
      drop (Suc (length (takeWhile ?P l))) l @ [CHR 0x0D]"
    by simp
  show ?thesis
    using True by (simp only: Load_entry_def k v strings_TrimSpace_snoc_CR Let_def) simp
next
  case False
  then show ?thesis by (simp add: Load_entry_def)
qed

lemma map_filter_Load_entry_CR:
  "List.map_filter Load_entry (map (\<lambda>l. l @ [CHR 0x0D]) ls) = List.map_filter Load_entry ls"
  by (induction ls) (simp_all add: map_filter_Cons Load_entry_snoc_CR List.map_filter_def)

lemma map_filter_append:
  "List.map_filter f (xs @ ys) = List.map_filter f xs @ List.map_filter f ys"
  by (simp add: List.map_filter_def)

lemma Load_entries_toCRLF: "Load_entries (toCRLF content) = Load_entries content"
proof -
  let ?ls = "strings_Split content (CHR 0x0A)"
  have a: "Load_lines content = butlast ?ls @ [strings_TrimRight (last ?ls) (CHR 0x0D)]"
    using strings_Split_TrimRight [of content]
    by (simp add: Load_lines_def lines_of_eq strings_TrimRight_def)
  have "Load_lines (toCRLF content) =
      butlast (strings_Split (toCRLF content) (CHR 0x0A)) @
      [strings_TrimRight (last (strings_Split (toCRLF content) (CHR 0x0A))) (CHR 0x0D)]"
    using strings_Split_TrimRight [of "toCRLF content"]
    by (simp add: Load_lines_def lines_of_eq strings_TrimRight_def)
  then have b: "Load_lines (toCRLF content) =
      map (\<lambda>l. l @ [CHR 0x0D]) (butlast ?ls) @ [strings_TrimRight (last ?ls) (CHR 0x0D)]"
    by (simp add: strings_Split_toCRLF butlast_append)
  show ?thesis
    by (simp only: Load_entries_def a b map_filter_append map_filter_Load_entry_CR)
qed

lemma Load_toCRLF: "Load (toCRLF content) = Load content"
  by (simp add: Load_def Load_entries_toCRLF)

lemma last_entry_snoc_same: "last_entry (es @ [(a, b)]) a v \<longleftrightarrow> v = b"
  unfolding last_entry_def by (auto simp: nth_append)

lemma last_entry_snoc_other:
  "k \<noteq> a \<Longrightarrow> last_entry (es @ [(a, b)]) k v \<longleftrightarrow> last_entry es k v"
  unfolding last_entry_def by (auto simp: nth_append) fastforce

lemma map_of_rev_last_entry: "map_of (rev es) k = Some v \<longleftrightarrow> last_entry es k v"
proof (induction es rule: rev_induct)
  case Nil
  show ?case by (simp add: last_entry_def)
next
  case (snoc e es)
  obtain a b where e: "e = (a, b)" by (cases e)
  show ?case
  proof (cases "k = a")
    case True
    then show ?thesis using e by (auto simp: last_entry_snoc_same)
  next
    case False
    then show ?thesis using e snoc.IH by (simp add: last_entry_snoc_other)
  qed
qed

subsection \<open>The handler's decision\<close>

lemma Handler_decoded:
  assumes "ioutil_ReadAll (Body r) = Inr byteData" and "json_Unmarshal byteData = Inr lc"
  shows "Handler json_Unmarshal json_Marshal r m =
     write_decision json_Marshal
       (if User lc = [] \<or> map_index (Metas lc) ''password'' = []
        then Rejected ''user or meta password can not be empty''
        else if map_index (Data m) (User lc) = map_index (Metas lc) ''password''
        then Unchanged
        else Rejected (Sprintf_invalid_password (User lc)))"
  using assms
  by (simp add: Handler_def write_decision_def Rejected_def Unchanged_def Let_def)

lemma map_index_eq_nonempty: "v \<noteq> [] \<Longrightarrow> map_index m k = v \<longleftrightarrow> m k = Some v"
  by (auto simp: map_index_def split: option.splits)

text \<open>
  Claim C1.  A request whose body is read and decoded, with a non-empty user and a
  non-empty \<^verbatim>\<open>password\<close> meta: the handler hands the encoder the Unchanged decision exactly
  when the mapping holds the supplied password under the user, and otherwise the Reject
  decision whose reason is \<^verbatim>\<open>user: `<user>` invalid password\<close>.  The two decisions differ,
  and what is written is the encoder's rendering of the decision.
\<close>
theorem Handler_password_check:
  assumes "ioutil_ReadAll (Body r) = Inr byteData"
    and "json_Unmarshal byteData = Inr lc"
    and "User lc \<noteq> []"
    and "map_index (Metas lc) ''password'' \<noteq> []"
  shows "Handler json_Unmarshal json_Marshal r m =
           write_decision json_Marshal
             (if Data m (User lc) = Some (map_index (Metas lc) ''password'') then Unchanged
              else Rejected (''user: `'' @ User lc @ ''` invalid password'')) \<and>
         Unchanged \<noteq> Rejected (''user: `'' @ User lc @ ''` invalid password'')"
  using assms(3,4) Handler_decoded [of r byteData json_Unmarshal lc json_Marshal m, OF assms(1,2)]
  by (simp add: map_index_eq_nonempty Sprintf_invalid_password_def Unchanged_def Rejected_def)

theorem Handler_password_check_witness:
  "Handler (\<lambda>_. Inr \<lparr>User = ''alice'', Metas = [''password'' \<mapsto> ''secret'']\<rparr>)
           (\<lambda>p. Inr (if Unchange p then ''allow'' else RejectReason p))
           \<lparr>Body = Inr ''{}''\<rparr> \<lparr>Data = [''alice'' \<mapsto> ''secret'']\<rparr>
     = \<lparr>WriteHeader = 200, Write = ''allow''\<rparr> \<and>
   Handler (\<lambda>_. Inr \<lparr>User = ''alice'', Metas = [''password'' \<mapsto> ''wrong'']\<rparr>)
           (\<lambda>p. Inr (if Unchange p then ''allow'' else RejectReason p))
           \<lparr>Body = Inr ''{}''\<rparr> \<lparr>Data = [''alice'' \<mapsto> ''secret'']\<rparr>
     = \<lparr>WriteHeader = 200, Write = ''user: `alice` invalid password''\<rparr>"
  using Handler_password_check
          [of "\<lparr>Body = Inr ''{}''\<rparr>" "''{}''"
              "\<lambda>_. Inr \<lparr>User = ''alice'', Metas = [''password'' \<mapsto> ''secret'']\<rparr>"
              "\<lparr>User = ''alice'', Metas = [''password'' \<mapsto> ''secret'']\<rparr>"
              "\<lambda>p. Inr (if Unchange p then ''allow'' else RejectReason p)"
              "\<lparr>Data = [''alice'' \<mapsto> ''secret'']\<rparr>"]
        Handler_password_check
          [of "\<lparr>Body = Inr ''{}''\<rparr>" "''{}''"
              "\<lambda>_. Inr \<lparr>User = ''alice'', Metas = [''password'' \<mapsto> ''wrong'']\<rparr>"
              "\<lparr>User = ''alice'', Metas = [''password'' \<mapsto> ''wrong'']\<rparr>"
              "\<lambda>p. Inr (if Unchange p then ''allow'' else RejectReason p)"
              "\<lparr>Data = [''alice'' \<mapsto> ''secret'']\<rparr>"]
  by (simp add: ioutil_ReadAll_def map_index_def write_decision_def Unchanged_def Rejected_def)

text \<open>
  Claim C3.  A decoded request in which the user is empty or the \<^verbatim>\<open>password\<close> meta is empty
  (or missing) gets the Reject decision with the reason
  \<^verbatim>\<open>user or meta password can not be empty\<close>, whatever the other field holds and whatever
  the mapping holds.
\<close>
theorem Handler_empty_field:
  assumes "ioutil_ReadAll (Body r) = Inr byteData"
    and "json_Unmarshal byteData = Inr lc"
    and "User lc = [] \<or> map_index (Metas lc) ''password'' = []"
  shows "Handler json_Unmarshal json_Marshal r m =
           write_decision json_Marshal (Rejected ''user or meta password can not be empty'') \<and>
         (\<forall>m'. Handler json_Unmarshal json_Marshal r m' = Handler json_Unmarshal json_Marshal r m)"
  using assms(3) Handler_decoded [of r byteData json_Unmarshal lc json_Marshal, OF assms(1,2)]
  by auto

theorem Handler_empty_field_witness:
  "Handler (\<lambda>_. Inr \<lparr>User = [], Metas = [''password'' \<mapsto> ''secret'']\<rparr>)
           (\<lambda>p. Inr (if Unchange p then ''allow'' else RejectReason p))
           \<lparr>Body = Inr ''{}''\<rparr> \<lparr>Data = [[] \<mapsto> ''secret'']\<rparr>
     = \<lparr>WriteHeader = 200, Write = ''user or meta password can not be empty''\<rparr> \<and>
   Handler (\<lambda>_. Inr \<lparr>User = ''alice'', Metas = Map.empty\<rparr>)
           (\<lambda>p. Inr (if Unchange p then ''allow'' else RejectReason p))
           \<lparr>Body = Inr ''{}''\<rparr> \<lparr>Data = [''alice'' \<mapsto> ''secret'']\<rparr>
     = \<lparr>WriteHeader = 200, Write = ''user or meta password can not be empty''\<rparr>"
  using Handler_empty_field
          [of "\<lparr>Body = Inr ''{}''\<rparr>" "''{}''"
              "\<lambda>_. Inr \<lparr>User = [], Metas = [''password'' \<mapsto> ''secret'']\<rparr>"
              "\<lparr>User = [], Metas = [''password'' \<mapsto> ''secret'']\<rparr>"
              "\<lambda>p. Inr (if Unchange p then ''allow'' else RejectReason p)"
              "\<lparr>Data = [[] \<mapsto> ''secret'']\<rparr>"]
        Handler_empty_field
          [of "\<lparr>Body = Inr ''{}''\<rparr>" "''{}''"
              "\<lambda>_. Inr \<lparr>User = ''alice'', Metas = Map.empty\<rparr>"
              "\<lparr>User = ''alice'', Metas = Map.empty\<rparr>"
              "\<lambda>p. Inr (if Unchange p then ''allow'' else RejectReason p)"
              "\<lparr>Data = [''alice'' \<mapsto> ''secret'']\<rparr>"]
  by (simp add: ioutil_ReadAll_def map_index_def write_decision_def Rejected_def)

text \<open>
  When the body is read but does not decode, the handler writes status 400 and the bytes
  \<^verbatim>\<open>{"msg": "\<close>, the decoder's message as it is, and \<^verbatim>\<open>"}\<close>; neither the encoder nor the
  mapping has any part in the response.
\<close>

lemma Handler_decode_failure:
  assumes "ioutil_ReadAll (Body r) = Inr byteData"
    and "json_Unmarshal byteData = Inl err"
  shows \<open>Handler json_Unmarshal json_Marshal r m =
           \<lparr>WriteHeader = 400, Write = ''{"msg": "'' @ Error err @ ''"}''\<rparr> \<and>
         (\<forall>json_Marshal' m'.
            Handler json_Unmarshal json_Marshal' r m' = Handler json_Unmarshal json_Marshal r m)\<close>
  using assms by (simp add: Handler_def Sprintf_msg_def)

lemma json_value_unescaped_quote:
  \<open>json_value n (dropWhile json_ws ''{"msg": "invalid character '"' after object key"}'') = None\<close>
proof (cases n)
  case 0
  then show ?thesis by simp
next
  case (Suc n1)
  show ?thesis
  proof (cases n1)
    case 0
    then show ?thesis using Suc by (simp add: json_ws_def)
  next
    case (Suc n2)
    note n1 = this
    show ?thesis
    proof (cases n2)
      case 0
      then show ?thesis using \<open>n = Suc n1\<close> n1 by (simp add: json_ws_def)
    next
      case (Suc n3)
      then show ?thesis using \<open>n = Suc n1\<close> n1 by (simp add: json_ws_def)
    qed
  qed
qed

lemma not_JSON_text_unescaped_quote:
  \<open>\<not> JSON_text ''{"msg": "invalid character '"' after object key"}''\<close>
  unfolding JSON_text_def by (simp only: json_value_unescaped_quote) simp

lemma JSON_text_plain_message: \<open>JSON_text ''{"msg": "unexpected end of JSON input"}''\<close>
  unfolding JSON_text_def
  by (rule exI [of _ 3]) (simp add: json_ws_def numeral_3_eq_3)

text \<open>
  Claim C4.  The status of a decode failure is 400 and no decision is made, but the body
  is not always JSON.  The request body \<^verbatim>\<open>{"a" "b"}\<close> makes \<^verbatim>\<open>json.Unmarshal\<close> fail with
  the message \<^verbatim>\<open>invalid character '"' after object key\<close>; \<^verbatim>\<open>Sprintf\<close> puts it between the
  quotation marks unescaped, and the bytes written are not a JSON text.  For a message
  without such characters, as that of the request body \<^verbatim>\<open>{\<close>, they are.
\<close>
theorem Handler_decode_failure_not_JSON:
  \<open>Handler (\<lambda>_. Inl (errors_New ''invalid character '"' after object key'')) json_Marshal
     \<lparr>Body = Inr ''{"a" "b"}''\<rparr> m =
     \<lparr>WriteHeader = 400, Write = ''{"msg": "invalid character '"' after object key"}''\<rparr> \<and>
   \<not> JSON_text ''{"msg": "invalid character '"' after object key"}'' \<and>
   Handler (\<lambda>_. Inl (errors_New ''unexpected end of JSON input'')) json_Marshal
     \<lparr>Body = Inr ''{''\<rparr> m =
     \<lparr>WriteHeader = 400, Write = ''{"msg": "unexpected end of JSON input"}''\<rparr> \<and>
   JSON_text ''{"msg": "unexpected end of JSON input"}''\<close>
  using not_JSON_text_unescaped_quote JSON_text_plain_message
  by (simp add: Handler_def ioutil_ReadAll_def Sprintf_msg_def)

text \<open>
  Claim C6.  A decoded request with non-empty user and password whose user is not a key of
  the mapping gets the Reject decision with the invalid-password reason: the lookup yields
  the empty string.  Moreover no mapping that \<^verbatim>\<open>readAuthFile\<close> returns holds an empty value.
\<close>
theorem Handler_unknown_user:
  assumes "ioutil_ReadAll (Body r) = Inr byteData"
    and "json_Unmarshal byteData = Inr lc"
    and "User lc \<noteq> []"
    and "map_index (Metas lc) ''password'' \<noteq> []"
    and "User lc \<notin> dom (Data m)"
  shows "Handler json_Unmarshal json_Marshal r m =
           write_decision json_Marshal (Rejected (''user: `'' @ User lc @ ''` invalid password'')) \<and>
         map_index (Data m) (User lc) = [] \<and>
         (\<forall>fs filename AuthMap k. readAuthFile fs filename = Ok AuthMap \<longrightarrow> AuthMap k \<noteq> Some [])"
proof -
  have "Data m (User lc) = None" using assms(5) by auto
  then have empty: "map_index (Data m) (User lc) = []" by (simp add: map_index_def)
  have a: "Handler json_Unmarshal json_Marshal r m =
      write_decision json_Marshal (Rejected (''user: `'' @ User lc @ ''` invalid password''))"
    using assms(3,4) Handler_decoded [of r byteData json_Unmarshal lc json_Marshal m, OF assms(1,2)]
    by (simp add: empty Sprintf_invalid_password_def)
  have b: "AuthMap k \<noteq> Some []" if "readAuthFile fs filename = Ok AuthMap"
    for fs filename AuthMap k
  proof (cases "os_ReadFile fs filename")
    case (Inl e)
    with that show ?thesis by (simp add: readAuthFile_Inl)
  next
    case (Inr content)
    with that have "AuthMap = Load content" by (simp add: readAuthFile_Inr)
    then show ?thesis by (simp add: Load_nonempty)
  qed
  show ?thesis using a b empty by simp
qed

theorem Handler_unknown_user_witness:
  "Handler (\<lambda>_. Inr \<lparr>User = ''mallory'', Metas = [''password'' \<mapsto> ''secret'']\<rparr>)
           (\<lambda>p. Inr (if Unchange p then ''allow'' else RejectReason p))
           \<lparr>Body = Inr ''{}''\<rparr> \<lparr>Data = [''alice'' \<mapsto> ''secret'']\<rparr>
     = \<lparr>WriteHeader = 200, Write = ''user: `mallory` invalid password''\<rparr>"
  using Handler_unknown_user
          [of "\<lparr>Body = Inr ''{}''\<rparr>" "''{}''"
              "\<lambda>_. Inr \<lparr>User = ''mallory'', Metas = [''password'' \<mapsto> ''secret'']\<rparr>"
              "\<lparr>User = ''mallory'', Metas = [''password'' \<mapsto> ''secret'']\<rparr>"
              "\<lparr>Data = [''alice'' \<mapsto> ''secret'']\<rparr>"
              "\<lambda>p. Inr (if Unchange p then ''allow'' else RejectReason p)"]
  by (simp add: ioutil_ReadAll_def map_index_def write_decision_def Rejected_def)

text \<open>
  Claim C7.  For a request that is read and decoded there is one response that the handler
  hands to whatever encoder it is given, and in it either \<^verbatim>\<open>Unchange\<close> is set, \<^verbatim>\<open>Reject\<close>
  is not and the reason is empty, or \<^verbatim>\<open>Reject\<close> is set with a non-empty reason and
  \<^verbatim>\<open>Unchange\<close> is not.
\<close>
theorem Handler_one_decision:
  assumes "ioutil_ReadAll (Body r) = Inr byteData"
    and "json_Unmarshal byteData = Inr lc"
  shows "\<exists>pluginResponse.
           (\<forall>json_Marshal.
              Handler json_Unmarshal json_Marshal r m = write_decision json_Marshal pluginResponse) \<and>
           (Unchange pluginResponse \<and> \<not> Reject pluginResponse \<and> RejectReason pluginResponse = [] \<or>
            Reject pluginResponse \<and> RejectReason pluginResponse \<noteq> [] \<and> \<not> Unchange pluginResponse)"
proof -
  let ?d = "if User lc = [] \<or> map_index (Metas lc) ''password'' = []
        then Rejected ''user or meta password can not be empty''
        else if map_index (Data m) (User lc) = map_index (Metas lc) ''password''
        then Unchanged
        else Rejected (Sprintf_invalid_password (User lc))"
  have "\<forall>json_Marshal. Handler json_Unmarshal json_Marshal r m = write_decision json_Marshal ?d"
    using Handler_decoded [of r byteData json_Unmarshal lc _ m, OF assms] by blast
  moreover have "Unchange ?d \<and> \<not> Reject ?d \<and> RejectReason ?d = [] \<or>
      Reject ?d \<and> RejectReason ?d \<noteq> [] \<and> \<not> Unchange ?d"
    by (simp add: Unchanged_def Rejected_def Sprintf_invalid_password_def)
  ultimately show ?thesis by blast
qed

theorem Handler_one_decision_witness:
  "\<exists>pluginResponse.
     (\<forall>json_Marshal.
        Handler (\<lambda>_. Inr \<lparr>User = ''alice'', Metas = [''password'' \<mapsto> ''secret'']\<rparr>) json_Marshal
          \<lparr>Body = Inr ''{}''\<rparr> \<lparr>Data = [''alice'' \<mapsto> ''secret'']\<rparr> =
        write_decision json_Marshal pluginResponse) \<and>
     (Unchange pluginResponse \<and> \<not> Reject pluginResponse \<and> RejectReason pluginResponse = [] \<or>
      Reject pluginResponse \<and> RejectReason pluginResponse \<noteq> [] \<and> \<not> Unchange pluginResponse)"
  using Handler_one_decision
          [of "\<lparr>Body = Inr ''{}''\<rparr>" "''{}''"
              "\<lambda>_. Inr \<lparr>User = ''alice'', Metas = [''password'' \<mapsto> ''secret'']\<rparr>"
              "\<lparr>User = ''alice'', Metas = [''password'' \<mapsto> ''secret'']\<rparr>"
              "\<lparr>Data = [''alice'' \<mapsto> ''secret'']\<rparr>"]
  by (simp add: ioutil_ReadAll_def)

lemma TrimLeftSpace_stop: "leadingSpace s = 0 \<Longrightarrow> TrimLeftSpace s = s"
  by (subst TrimLeftSpace.simps) simp

lemma TrimLeftSpace_go:
  "leadingSpace s \<noteq> 0 \<Longrightarrow> TrimLeftSpace s = TrimLeftSpace (drop (leadingSpace s) s)"
  by (subst TrimLeftSpace.simps) simp

lemma TrimRightSpace_stop: "trailingSpace s = 0 \<Longrightarrow> TrimRightSpace s = s"
  by (subst TrimRightSpace.simps) simp

lemma TrimRightSpace_go:
  "trailingSpace s \<noteq> 0 \<Longrightarrow>
   TrimRightSpace s = TrimRightSpace (take (length s - trailingSpace s) s)"
  by (subst TrimRightSpace.simps) simp

lemmas TrimSpace_eval =
  strings_TrimSpace_def TrimLeftSpace_stop TrimLeftSpace_go TrimRightSpace_stop TrimRightSpace_go
  leadingSpace_def trailingSpace_def asciiSpace_def unicodeSpaces_def

lemmas Load_eval =
  Load_def Load_entries_def Load_lines_def Load_entry_def List.map_filter_def TrimSpace_eval

lemma Load_example_1: "Load ''key=value\<newline>'' = [''key'' \<mapsto> ''value'']"
  by (simp add: Load_eval)

lemma Load_example_2: "Load ''a=b=c\<newline>'' = [''a'' \<mapsto> ''b=c'']"
  by (simp add: Load_eval)

lemma Load_example_3: "Load ''novalue=\<newline>'' = Map.empty"
  by (simp add: Load_eval)

lemma Load_example_4: "Load ''noequals\<newline>'' = Map.empty"
  by (simp add: Load_eval)

lemma readAuthFile_const: "readAuthFile (\<lambda>_. Inr content) filename = Ok (Load content)"
  by (rule readAuthFile_Inr) (simp add: os_ReadFile_def)

text \<open>
  Claim C2.  For every content of the file, \<^verbatim>\<open>readAuthFile\<close> returns the mapping \<open>Load\<close>
  of the specification: the entries of the lines that contain \<^verbatim>\<open>=\<close>, cut at the first
  \<^verbatim>\<open>=\<close>, key and value trimmed, entries with an empty trimmed value left out, and for
  each key the value of its last entry.  The four examples of the specification follow.
\<close>
theorem readAuthFile_entries:
  "(os_ReadFile fs filename = Inr content \<longrightarrow>
      readAuthFile fs filename = Ok (Load content) \<and>
      (\<forall>k v. Load content k = Some v \<longleftrightarrow> last_entry (Load_entries content) k v)) \<and>
   readAuthFile (\<lambda>_. Inr ''key=value\<newline>'') filename = Ok [''key'' \<mapsto> ''value''] \<and>
   readAuthFile (\<lambda>_. Inr ''a=b=c\<newline>'') filename = Ok [''a'' \<mapsto> ''b=c''] \<and>
   readAuthFile (\<lambda>_. Inr ''novalue=\<newline>'') filename = Ok Map.empty \<and>
   readAuthFile (\<lambda>_. Inr ''noequals\<newline>'') filename = Ok Map.empty"
proof -
  have "\<forall>k v. Load content k = Some v \<longleftrightarrow> last_entry (Load_entries content) k v"
    by (simp add: Load_def map_of_rev_last_entry)
  moreover have "os_ReadFile fs filename = Inr content \<longrightarrow>
      readAuthFile fs filename = Ok (Load content)"
    using readAuthFile_Inr by blast
  ultimately show ?thesis
    by (simp add: readAuthFile_const Load_example_1 Load_example_2 Load_example_3 Load_example_4)
qed

lemma Load_entries_example:
  "Load_entries ('' alice = one'' @ [CHR 0x0D, CHR 0x0A] @ ''bob=x=y'' @ [CHR 0x0A] @ ''alice=two'' @
                 [CHR 0x0A, CHR 0x0A] @ ''carol= '' @ [CHR 0x0A] @ ''dave'' @ [CHR 0x0A, CHR 0x0D])
   = [(''alice'', ''one''), (''bob'', ''x=y''), (''alice'', ''two'')]"
  by (simp add: Load_eval)

theorem readAuthFile_entries_witness:
  "readAuthFile
     (\<lambda>_. Inr ('' alice = one'' @ [CHR 0x0D, CHR 0x0A] @ ''bob=x=y'' @ [CHR 0x0A] @ ''alice=two'' @
             [CHR 0x0A, CHR 0x0A] @ ''carol= '' @ [CHR 0x0A] @ ''dave'' @ [CHR 0x0A, CHR 0x0D]))
     ''./tokens''
   = Ok [''bob'' \<mapsto> ''x=y'', ''alice'' \<mapsto> ''two'']"
proof -
  let ?content = "'' alice = one'' @ [CHR 0x0D, CHR 0x0A] @ ''bob=x=y'' @ [CHR 0x0A] @ ''alice=two'' @
      [CHR 0x0A, CHR 0x0A] @ ''carol= '' @ [CHR 0x0A] @ ''dave'' @ [CHR 0x0A, CHR 0x0D]"
  have "os_ReadFile (\<lambda>_. Inr ?content) ''./tokens'' = Inr ?content"
    by (simp add: os_ReadFile_def)
  with readAuthFile_entries [of "\<lambda>_. Inr ?content" "''./tokens''" ?content]
  have "readAuthFile (\<lambda>_. Inr ?content) ''./tokens'' = Ok (Load ?content)"
    by blast
  moreover have "Load ?content = [''bob'' \<mapsto> ''x=y'', ''alice'' \<mapsto> ''two'']"
    unfolding Load_def Load_entries_example by (simp add: fun_eq_iff)
  ultimately show ?thesis by simp
qed

lemma Load_entry_malformed:
  "CHR ''='' \<notin> set row \<or> strings_TrimSpace (tl (dropWhile (\<lambda>c. c \<noteq> CHR ''='') row)) = [] \<Longrightarrow>
   Load_entry row = None"
  by (auto simp: Load_entry_def tl_dropWhile_drop Let_def)

text \<open>
  Claim C8.  \<^verbatim>\<open>readAuthFile\<close> returns an error exactly when \<^verbatim>\<open>os.ReadFile\<close> does, and then
  that same error; it never panics; for every content that is read it returns a mapping;
  and a row without \<^verbatim>\<open>=\<close>, or whose trimmed value is empty, is skipped: the loop gives
  the same result as without that row.
\<close>
theorem readAuthFile_error:
  "(readAuthFile fs filename = Err err \<longleftrightarrow> os_ReadFile fs filename = Inl err) \<and>
   readAuthFile fs filename \<noteq> Panic \<and>
   (os_ReadFile fs filename = Inr content \<longrightarrow> (\<exists>AuthMap. readAuthFile fs filename = Ok AuthMap)) \<and>
   (CHR ''='' \<notin> set row \<or> strings_TrimSpace (tl (dropWhile (\<lambda>c. c \<noteq> CHR ''='') row)) = [] \<longrightarrow>
      readAuthFile_rows (before @ row # after) AuthMap = readAuthFile_rows (before @ after) AuthMap)"
proof -
  have a: "readAuthFile fs filename = Err err \<longleftrightarrow> os_ReadFile fs filename = Inl err"
    by (cases "os_ReadFile fs filename") (simp_all add: readAuthFile_Inl readAuthFile_Inr)
  have b: "readAuthFile fs filename \<noteq> Panic"
    by (cases "os_ReadFile fs filename") (simp_all add: readAuthFile_Inl readAuthFile_Inr)
  have c: "os_ReadFile fs filename = Inr content \<longrightarrow> (\<exists>AuthMap. readAuthFile fs filename = Ok AuthMap)"
    by (simp add: readAuthFile_Inr)
  have d: "readAuthFile_rows (before @ row # after) AuthMap = readAuthFile_rows (before @ after) AuthMap"
    if "CHR ''='' \<notin> set row \<or> strings_TrimSpace (tl (dropWhile (\<lambda>c. c \<noteq> CHR ''='') row)) = []"
    using Load_entry_malformed [OF that]
    by (simp add: readAuthFile_rows_eq map_filter_append map_filter_Cons)
  show ?thesis using a b c d by blast
qed

theorem readAuthFile_error_witness:
  "readAuthFile (\<lambda>_. Inl (errors_New ''open ./tokens: no such file or directory'')) ''./tokens''
     = Err (errors_New ''open ./tokens: no such file or directory'') \<and>
   (\<exists>AuthMap. readAuthFile (\<lambda>_. Inr (''noequals'' @ [CHR 0x0A] @ ''novalue=  '' @ [CHR 0x0A])) ''./tokens''
     = Ok AuthMap) \<and>
   readAuthFile_rows [''a=b'', ''novalue=  '', ''c=d''] Map.empty = readAuthFile_rows [''a=b'', ''c=d''] Map.empty \<and>
   readAuthFile_rows [''a=b'', ''noequals'', ''c=d''] Map.empty = readAuthFile_rows [''a=b'', ''c=d''] Map.empty"
proof -
  let ?e = "errors_New ''open ./tokens: no such file or directory''"
  let ?c = "''noequals'' @ [CHR 0x0A] @ ''novalue=  '' @ [CHR 0x0A]"
  have "strings_TrimSpace (tl (dropWhile (\<lambda>c. c \<noteq> CHR ''='') ''novalue=  '')) = []"
    by (simp add: TrimSpace_eval)
  then have 1: "readAuthFile_rows ([''a=b''] @ ''novalue=  '' # [''c=d'']) Map.empty =
      readAuthFile_rows ([''a=b''] @ [''c=d'']) Map.empty"
    using readAuthFile_error [of _ _ _ _ "''novalue=  ''" "[''a=b'']" "[''c=d'']" Map.empty] by blast
  have "CHR ''='' \<notin> set ''noequals''" by simp
  then have 2: "readAuthFile_rows ([''a=b''] @ ''noequals'' # [''c=d'']) Map.empty =
      readAuthFile_rows ([''a=b''] @ [''c=d'']) Map.empty"
    using readAuthFile_error [of _ _ _ _ "''noequals''" "[''a=b'']" "[''c=d'']" Map.empty] by blast
  have 3: "readAuthFile (\<lambda>_. Inl ?e) ''./tokens'' = Err ?e"
    using readAuthFile_error [of "\<lambda>_. Inl ?e" "''./tokens''" ?e] by (simp add: os_ReadFile_def)
  have 4: "\<exists>AuthMap. readAuthFile (\<lambda>_. Inr ?c) ''./tokens'' = Ok AuthMap"
    using readAuthFile_error [of "\<lambda>_. Inr ?c" "''./tokens''" _ ?c] by (simp add: os_ReadFile_def)
  show ?thesis using 1 2 3 4 by simp
qed

text \<open>
  Claim C10.  Reading a content with every newline preceded by a carriage return gives
  the same result as reading the content itself.  After the trailing carriage returns of
  the buffer are stripped, every row but the last still ends in the carriage return added,
  and trimming removes a carriage return at the end of a value.
\<close>
theorem readAuthFile_CRLF:
  assumes "os_ReadFile fs filename = Inr content"
    and "os_ReadFile fs' filename' = Inr (toCRLF content)"
  shows "readAuthFile fs' filename' = readAuthFile fs filename \<and>
         strings_Split (strings_TrimRight (toCRLF content) (CHR 0x0D)) (CHR 0x0A) =
           map (\<lambda>row. row @ [CHR 0x0D]) (butlast (strings_Split content (CHR 0x0A))) @
           [strings_TrimRight (last (strings_Split content (CHR 0x0A))) (CHR 0x0D)] \<and>
         (\<forall>s. strings_TrimSpace (s @ [CHR 0x0D]) = strings_TrimSpace s)"
proof -
  have "readAuthFile fs' filename' = readAuthFile fs filename"
    by (simp add: readAuthFile_Inr [OF assms(1)] readAuthFile_Inr [OF assms(2)] Load_toCRLF)
  moreover have "strings_Split (strings_TrimRight (toCRLF content) (CHR 0x0D)) (CHR 0x0A) =
      map (\<lambda>row. row @ [CHR 0x0D]) (butlast (strings_Split content (CHR 0x0A))) @
      [strings_TrimRight (last (strings_Split content (CHR 0x0A))) (CHR 0x0D)]"
    by (simp add: strings_Split_TrimRight strings_Split_toCRLF butlast_append)
  ultimately show ?thesis by (simp add: strings_TrimSpace_snoc_CR)
qed

theorem readAuthFile_CRLF_witness:
  "toCRLF (''alice = one'' @ [CHR 0x0A] @ ''bob=two'' @ [CHR 0x0A]) =
     ''alice = one'' @ [CHR 0x0D, CHR 0x0A] @ ''bob=two'' @ [CHR 0x0D, CHR 0x0A] \<and>
   readAuthFile (\<lambda>_. Inr (''alice = one'' @ [CHR 0x0D, CHR 0x0A] @ ''bob=two'' @ [CHR 0x0D, CHR 0x0A])) ''crlf'' =
   readAuthFile (\<lambda>_. Inr (''alice = one'' @ [CHR 0x0A] @ ''bob=two'' @ [CHR 0x0A])) ''lf'' \<and>
   readAuthFile (\<lambda>_. Inr (''alice = one'' @ [CHR 0x0A] @ ''bob=two'' @ [CHR 0x0A])) ''lf'' =
   Ok [''alice'' \<mapsto> ''one'', ''bob'' \<mapsto> ''two'']"
proof -
  let ?lf = "''alice = one'' @ [CHR 0x0A] @ ''bob=two'' @ [CHR 0x0A]"
  let ?crlf = "''alice = one'' @ [CHR 0x0D, CHR 0x0A] @ ''bob=two'' @ [CHR 0x0D, CHR 0x0A]"
  have t: "toCRLF ?lf = ?crlf" by (simp add: toCRLF_def)
  have "os_ReadFile (\<lambda>_. Inr ?lf) ''lf'' = Inr ?lf" by (simp add: os_ReadFile_def)
  moreover have "os_ReadFile (\<lambda>_. Inr ?crlf) ''crlf'' = Inr (toCRLF ?lf)"
    by (simp only: os_ReadFile_def t)
  ultimately have "readAuthFile (\<lambda>_. Inr ?crlf) ''crlf'' = readAuthFile (\<lambda>_. Inr ?lf) ''lf''"
    using readAuthFile_CRLF [of "\<lambda>_. Inr ?lf" "''lf''" ?lf "\<lambda>_. Inr ?crlf" "''crlf''"] by blast
  moreover have "readAuthFile (\<lambda>_. Inr ?lf) ''lf'' = Ok [''alice'' \<mapsto> ''one'', ''bob'' \<mapsto> ''two'']"
    unfolding readAuthFile_const by (simp add: Load_eval)
  ultimately show ?thesis using t by blast
qed

subsection \<open>The reload loop\<close>

lemma readAuthFile_cases:
  "(\<exists>err. os_ReadFile fs filename = Inl err \<and> readAuthFile fs filename = Err err) \<or>
   (\<exists>content. os_ReadFile fs filename = Inr content \<and> readAuthFile fs filename = Ok (Load content))"
  by (cases "os_ReadFile fs filename") (simp_all add: readAuthFile_Inl readAuthFile_Inr)

lemma NewServer_reload_recv:
  "NewServer_reload cfg (RefreshChan_recv fs # rest) (m, lg) =
     (case os_ReadFile fs (AuthFile cfg) of
        Inl err \<Rightarrow> NewServer_reload cfg rest (m, lg @ [''read auth file error: '' @ Error err @ [CHR 0x0A]])
      | Inr content \<Rightarrow> NewServer_reload cfg rest (m\<lparr>Data := Load content\<rparr>, lg))"
  using readAuthFile_cases [of fs "AuthFile cfg"] by auto

declare NewServer_reload.simps(3) [simp del]

lemma NewServer_reload_status:
  "snd (NewServer_reload cfg selects st) = (if ctx_Done \<in> set selects then Exited else Blocked)"
proof (induction selects arbitrary: st)
  case Nil
  show ?case by (cases st) simp
next
  case (Cons a selects)
  obtain m lg where st: "st = (m, lg)" by (cases st)
  show ?case
  proof (cases a)
    case ctx_Done
    then show ?thesis by (simp add: st)
  next
    case (RefreshChan_recv fs)
    then show ?thesis
      by (simp only: st NewServer_reload_recv) (simp add: Cons.IH split: sum.splits)
  qed
qed

lemma NewServer_reload_append:
  "ctx_Done \<notin> set before \<Longrightarrow>
   NewServer_reload cfg (before @ after) st =
   NewServer_reload cfg after (fst (NewServer_reload cfg before st))"
proof (induction before arbitrary: st)
  case Nil
  show ?case by (cases st) simp
next
  case (Cons a before)
  obtain m lg where st: "st = (m, lg)" by (cases st)
  from Cons.prems obtain fs where a: "a = RefreshChan_recv fs" by (cases a) auto
  from Cons.prems have "ctx_Done \<notin> set before" by simp
  note IH = Cons.IH [OF this]
  show ?case
    unfolding st a append_Cons NewServer_reload_recv
    by (simp add: IH split: sum.splits)
qed

text \<open>
  Claim C5.  A reload in which reading the file fails, after any reloads \<open>before\<close> it:
  the error is logged, the mapping stays the one in effect before the reload, and the loop
  goes on with what comes \<open>after\<close>.  The loop exits exactly when a \<^verbatim>\<open>select\<close> takes the
  done context, and it never crashes.
\<close>
theorem NewServer_reload_failure:
  "(os_ReadFile fs (AuthFile cfg) = Inl err \<and> ctx_Done \<notin> set before \<and>
    fst (NewServer_reload cfg before (m, lg)) = (m', lg') \<longrightarrow>
      NewServer_reload cfg (before @ RefreshChan_recv fs # after) (m, lg) =
      NewServer_reload cfg after
        (m', lg' @ [''read auth file error: '' @ Error err @ [CHR 0x0A]])) \<and>
   (snd (NewServer_reload cfg selects (m, lg)) = Exited \<longleftrightarrow> ctx_Done \<in> set selects) \<and>
   snd (NewServer_reload cfg selects (m, lg)) \<noteq> Crashed"
proof -
  have "NewServer_reload cfg (before @ RefreshChan_recv fs # after) (m, lg) =
      NewServer_reload cfg after
        (m', lg' @ [''read auth file error: '' @ Error err @ [CHR 0x0A]])"
    if "os_ReadFile fs (AuthFile cfg) = Inl err" and "ctx_Done \<notin> set before"
      and "fst (NewServer_reload cfg before (m, lg)) = (m', lg')"
    using that by (simp add: NewServer_reload_append NewServer_reload_recv)
  then show ?thesis by (simp add: NewServer_reload_status)
qed

theorem NewServer_reload_failure_witness:
  "NewServer_reload \<lparr>BindAddress = ''[::]:7003'', AuthFile = ''./tokens'', Inotify = True\<rparr>
     [RefreshChan_recv (\<lambda>_. Inr ''bob=pw''),
      RefreshChan_recv (\<lambda>_. Inl (errors_New ''open ./tokens: permission denied''))]
     (\<lparr>Data = [''alice'' \<mapsto> ''secret'']\<rparr>, [])
   = ((\<lparr>Data = [''bob'' \<mapsto> ''pw'']\<rparr>,
       [''read auth file error: open ./tokens: permission denied'' @ [CHR 0x0A]]), Blocked)"
proof -
  let ?cfg = "\<lparr>BindAddress = ''[::]:7003'', AuthFile = ''./tokens'', Inotify = True\<rparr>"
  let ?bad = "\<lambda>_::string. Inl (errors_New ''open ./tokens: permission denied'') :: error + string"
  let ?good = "\<lambda>_::string. Inr ''bob=pw'' :: error + string"
  have load: "Load ''bob=pw'' = [''bob'' \<mapsto> ''pw'']" by (simp add: Load_eval)
  have pre: "fst (NewServer_reload ?cfg [RefreshChan_recv ?good] (\<lparr>Data = [''alice'' \<mapsto> ''secret'']\<rparr>, []))
      = (\<lparr>Data = [''bob'' \<mapsto> ''pw'']\<rparr>, [])"
    by (simp add: NewServer_reload_recv os_ReadFile_def load)
  have "os_ReadFile ?bad (AuthFile ?cfg) = Inl (errors_New ''open ./tokens: permission denied'')"
    by (simp add: os_ReadFile_def)
  with pre show ?thesis
    using NewServer_reload_failure
      [of ?bad ?cfg "errors_New ''open ./tokens: permission denied''" "[RefreshChan_recv ?good]"
          "\<lparr>Data = [''alice'' \<mapsto> ''secret'']\<rparr>" "[]" "\<lparr>Data = [''bob'' \<mapsto> ''pw'']\<rparr>" "[]" "[]"]
    by simp
qed

subsection \<open>The watcher\<close>

lemma inotifyAuthFile_step_count:
  assumes "inotifyAuthFile_step cap s a = Some s'"
  shows "of_bool (a = send) + of_bool (at s' = at_send) =
         of_bool (a = select_Event fsnotify_Write) + (of_bool (at s = at_send) :: nat)"
proof (cases a)
  case select_Done
  with assms show ?thesis by (cases "at s = at_select") auto
next
  case (select_Event op)
  with assms show ?thesis
    by (cases "at s = at_select"; cases "op = fsnotify_Write") auto
next
  case send
  with assms show ?thesis
    by (cases "at s = at_send \<and> refreshChan s < cap") auto
next
  case recv
  with assms show ?thesis by (cases "0 < refreshChan s") auto
qed

lemma inotifyAuthFile_step_chan:
  assumes "inotifyAuthFile_step cap s a = Some s'"
  shows "refreshChan s' + of_bool (a = recv) = refreshChan s + of_bool (a = send)"
proof (cases a)
  case select_Done
  with assms show ?thesis by (cases "at s = at_select") auto
next
  case (select_Event op)
  with assms show ?thesis
    by (cases "at s = at_select"; cases "op = fsnotify_Write") auto
next
  case send
  with assms show ?thesis
    by (cases "at s = at_send \<and> refreshChan s < cap") auto
next
  case recv
  with assms show ?thesis by (cases "0 < refreshChan s") auto
qed

lemma count_list_Cons_of_bool: "count_list (a # as) x = of_bool (a = x) + count_list as x"
  by simp

lemma inotifyAuthFile_run_ConsE:
  assumes "inotifyAuthFile_run cap s (a # acts) = Some s'"
  obtains s1 where "inotifyAuthFile_step cap s a = Some s1"
    and "inotifyAuthFile_run cap s1 acts = Some s'"
  using assms by (cases "inotifyAuthFile_step cap s a") simp_all

lemma inotifyAuthFile_run_count:
  "inotifyAuthFile_run cap s acts = Some s' \<Longrightarrow>
   count_list acts send + of_bool (at s' = at_send) =
   count_list acts (select_Event fsnotify_Write) + (of_bool (at s = at_send) :: nat)"
proof (induction acts arbitrary: s)
  case Nil
  then show ?case by simp
next
  case (Cons a acts)
  from Cons.prems obtain s1 where s1: "inotifyAuthFile_step cap s a = Some s1"
    and run: "inotifyAuthFile_run cap s1 acts = Some s'"
    by (rule inotifyAuthFile_run_ConsE)
  from Cons.IH [OF run] inotifyAuthFile_step_count [OF s1]
  show ?case unfolding count_list_Cons_of_bool by linarith
qed

lemma inotifyAuthFile_run_chan:
  "inotifyAuthFile_run cap s acts = Some s' \<Longrightarrow>
   refreshChan s' + count_list acts recv = refreshChan s + count_list acts send"
proof (induction acts arbitrary: s)
  case Nil
  then show ?case by simp
next
  case (Cons a acts)
  from Cons.prems obtain s1 where s1: "inotifyAuthFile_step cap s a = Some s1"
    and run: "inotifyAuthFile_run cap s1 acts = Some s'"
    by (rule inotifyAuthFile_run_ConsE)
  from Cons.IH [OF run] inotifyAuthFile_step_chan [OF s1]
  show ?case unfolding count_list_Cons_of_bool by linarith
qed

text \<open>
  What holds of every run of the watcher from its \<^verbatim>\<open>select\<close>: the sends completed on the
  refresh channel, plus the one send the watcher may be waiting at, are as many as the
  events received whose \<^verbatim>\<open>Op\<close> equals \<^verbatim>\<open>fsnotify.Write\<close>, and the channel gains exactly one
  signal with each send.  An event with any other \<^verbatim>\<open>Op\<close> changes nothing, and a
  \<^verbatim>\<open>select\<close> that takes the done context returns \<^verbatim>\<open>nil\<close> with the watcher closed.
\<close>

lemma inotifyAuthFile_signals:
  "(at s = at_select \<and> inotifyAuthFile_run cap s acts = Some s' \<longrightarrow>
      count_list acts send + (if at s' = at_send then 1 else 0) =
        count_list acts (select_Event fsnotify_Write) \<and>
      refreshChan s' + count_list acts recv = refreshChan s + count_list acts send) \<and>
   (at s = at_select \<longrightarrow>
      inotifyAuthFile_step cap s (select_Event fsnotify_Write) =
        Some (s\<lparr>logger := logger s @ [''auth file changed, read again...''], at := at_send\<rparr>)) \<and>
   (at s = at_send \<longrightarrow>
      inotifyAuthFile_step cap s send =
        (if refreshChan s < cap then Some (s\<lparr>refreshChan := refreshChan s + 1, at := at_select\<rparr>)
         else None) \<and>
      inotifyAuthFile_step cap s select_Done = None \<and>
      inotifyAuthFile_step cap s (select_Event op) = None) \<and>
   (at s = at_select \<and> op \<noteq> fsnotify_Write \<longrightarrow>
      inotifyAuthFile_step cap s (select_Event op) = Some s) \<and>
   fsnotify_Write \<notin> {fsnotify_Create, fsnotify_Remove, fsnotify_Rename, fsnotify_Chmod} \<and>
   (at s = at_select \<longrightarrow>
      inotifyAuthFile_step cap s select_Done = Some (s\<lparr>at := returned None, w := Closed\<rparr>))"
proof -
  have "count_list acts send + (if at s' = at_send then 1 else 0) =
        count_list acts (select_Event fsnotify_Write) \<and>
      refreshChan s' + count_list acts recv = refreshChan s + count_list acts send"
    if "at s = at_select" and "inotifyAuthFile_run cap s acts = Some s'"
    using inotifyAuthFile_run_count [OF that(2)] inotifyAuthFile_run_chan [OF that(2)] that(1)
    by (cases "at s' = at_send") simp_all
  moreover have "fsnotify_Write \<notin> {fsnotify_Create, fsnotify_Remove, fsnotify_Rename, fsnotify_Chmod}"
    by (simp add: fsnotify_Write_def fsnotify_Create_def fsnotify_Remove_def fsnotify_Rename_def
        fsnotify_Chmod_def)
  ultimately show ?thesis by simp
qed

lemma inotifyAuthFile_step_full:
  "at s = at_send \<Longrightarrow> cap \<le> refreshChan s \<Longrightarrow> a \<noteq> recv \<Longrightarrow> inotifyAuthFile_step cap s a = None"
  by (cases a) auto

lemma inotifyAuthFile_run_full:
  assumes "at s = at_send" and "cap \<le> refreshChan s" and "recv \<notin> set acts"
    and "inotifyAuthFile_run cap s acts = Some s'"
  shows "s' = s"
proof (cases acts)
  case Nil
  with assms(4) show ?thesis by simp
next
  case (Cons a list)
  with assms(3) have "a \<noteq> recv" by auto
  with assms(1,2) have "inotifyAuthFile_step cap s a = None"
    by (rule inotifyAuthFile_step_full)
  with assms(4) Cons show ?thesis by simp
qed

lemma inotifyAuthFile_six_writes:
  "inotifyAuthFile_run 5 (inotifyAuthFile None None 0 [])
     [select_Event fsnotify_Write, send, select_Event fsnotify_Write, send,
      select_Event fsnotify_Write, send, select_Event fsnotify_Write, send,
      select_Event fsnotify_Write, send, select_Event fsnotify_Write]
   = Some \<lparr>at = at_send, refreshChan = 5, w = Watching,
            logger = replicate 6 ''auth file changed, read again...''\<rparr>"
  by (simp add: inotifyAuthFile_def fsnotify_Write_def numeral_eq_Suc)

text \<open>
  Claim C9.  Two inputs on which the watcher does not do what is claimed.  The channel of
  \<^verbatim>\<open>NewServer\<close> holds five signals.  After six write events of which the reload loop has
  received none, the watcher is at its send with the channel full.  The send is not a case
  of the \<^verbatim>\<open>select\<close>: there the done context cannot be taken, and unless a signal is
  received the watcher stays there for ever, the watcher still open; the reload loop
  receives no more once it has taken the done context itself.  And an event whose \<^verbatim>\<open>Op\<close>
  is \<^verbatim>\<open>Write|Chmod\<close> has the write bit set, but is not equal to \<^verbatim>\<open>fsnotify.Write\<close>: no
  signal is sent for it.
\<close>
theorem inotifyAuthFile_stuck_at_send:
  "inotifyAuthFile_run 5 (inotifyAuthFile None None 0 [])
     [select_Event fsnotify_Write, send, select_Event fsnotify_Write, send,
      select_Event fsnotify_Write, send, select_Event fsnotify_Write, send,
      select_Event fsnotify_Write, send, select_Event fsnotify_Write]
     = Some \<lparr>at = at_send, refreshChan = 5, w = Watching,
             logger = replicate 6 ''auth file changed, read again...''\<rparr> \<and>
   inotifyAuthFile_step 5
     \<lparr>at = at_send, refreshChan = 5, w = Watching,
      logger = replicate 6 ''auth file changed, read again...''\<rparr> select_Done = None \<and>
   (\<forall>acts s'. recv \<notin> set acts \<longrightarrow>
      inotifyAuthFile_run 5
        \<lparr>at = at_send, refreshChan = 5, w = Watching,
         logger = replicate 6 ''auth file changed, read again...''\<rparr> acts = Some s' \<longrightarrow>
      s' = \<lparr>at = at_send, refreshChan = 5, w = Watching,
            logger = replicate 6 ''auth file changed, read again...''\<rparr>) \<and>
   snd (NewServer_reload cfg (ctx_Done # selects) (m, lg)) = Exited \<and>
   (fsnotify_Write OR fsnotify_Chmod) AND fsnotify_Write = fsnotify_Write \<and>
   inotifyAuthFile_step 5 (inotifyAuthFile None None 0 [])
     (select_Event (fsnotify_Write OR fsnotify_Chmod)) = Some (inotifyAuthFile None None 0 [])"
proof -
  let ?b = "\<lparr>at = at_send, refreshChan = 5, w = Watching,
      logger = replicate 6 ''auth file changed, read again...''\<rparr>"
  have "s' = ?b" if "recv \<notin> set acts" and "inotifyAuthFile_run 5 ?b acts = Some s'" for acts s'
    using that by (intro inotifyAuthFile_run_full [of ?b 5 acts s']) simp_all
  moreover have "(fsnotify_Write OR fsnotify_Chmod) AND fsnotify_Write = fsnotify_Write"
    by (simp add: fsnotify_Write_def fsnotify_Chmod_def)
  moreover have "inotifyAuthFile_step 5 (inotifyAuthFile None None 0 [])
      (select_Event (fsnotify_Write OR fsnotify_Chmod)) = Some (inotifyAuthFile None None 0 [])"
    by (simp add: inotifyAuthFile_def fsnotify_Write_def fsnotify_Chmod_def)
  ultimately show ?thesis
    using inotifyAuthFile_six_writes by simp
qed

theorem inotifyAuthFile_stuck_at_send_witness:
  "inotifyAuthFile_run 5
     \<lparr>at = at_send, refreshChan = 5, w = Watching,
      logger = replicate 6 ''auth file changed, read again...''\<rparr>
     [select_Done]
   \<noteq> Some \<lparr>at = returned None, refreshChan = 5, w = Closed,
            logger = replicate 6 ''auth file changed, read again...''\<rparr>"
proof
  let ?b = "\<lparr>at = at_send, refreshChan = 5, w = Watching,
      logger = replicate 6 ''auth file changed, read again...''\<rparr>"
  let ?r = "\<lparr>at = returned None, refreshChan = 5, w = Closed,
      logger = replicate 6 ''auth file changed, read again...''\<rparr>"
  assume run: "inotifyAuthFile_run 5 ?b [select_Done] = Some ?r"
  have "recv \<notin> set [select_Done]" by simp
  with inotifyAuthFile_stuck_at_send run have "?r = ?b" by blast
  then show False by simp
qed

end
